theory Spec2Isabelle
  imports
    Main
    "HOL-Library.Word"
    "HOL-Library.Signed_Division"
    "HOL-Library.Monad_Syntax"
begin

section \<open>Binary splitting for the Chudnovsky series (raspberry-pi2-openmp.c)\<close>

text \<open>
  The development embeds the function \<^verbatim>\<open>bs\<close> of \<^verbatim>\<open>raspberry-pi2-openmp.c\<close> and the
  parts of \<^verbatim>\<open>main\<close> that start the binary splitting process and turn its result into a
  floating-point value.

  \<^item> GMP integers (\<^verbatim>\<open>mpz_t\<close>) are HOL integers: every \<^verbatim>\<open>mpz\<close> operation is exact.
  \<^item> \<^verbatim>\<open>unsigned long\<close> and \<^verbatim>\<open>long\<close> are 64-bit words (the header of the file says that
    \<^verbatim>\<open>long\<close> was introduced to go beyond 2G digits, so it is wider than 32 bits):
    subtraction and multiplication on them wrap around as in C.
  \<^item> The task budget \<^verbatim>\<open>tds\<close> is a C \<^verbatim>\<open>int\<close>; the only operations on it are a division by two,
    which truncates towards zero, a subtraction that cannot overflow, and comparisons.
  \<^item> The split point is computed by the C expression \<^verbatim>\<open>a+(b-a)*0.5224\<close> in IEEE 754 binary64
    arithmetic: round to nearest, ties to even, the two conversions, the product and the
    sum each rounded on its own (no fused multiply-add, no wider intermediate format). The
    result is then truncated to \<^verbatim>\<open>unsigned long\<close>.
  \<^item> An OpenMP parallel region is executed by a team whose size the runtime chooses,
    between one thread and the number requested by \<^verbatim>\<open>num_threads\<close>. The runtime is a
    parameter of the model. The threads of one region write to disjoint variables, so the
    result depends on the team size only.
  \<^item> The floating-point operations of GMP (\<^verbatim>\<open>mpf_set_z\<close>, \<^verbatim>\<open>mpf_div\<close>, \<^verbatim>\<open>mpf_sqrt_ui\<close>,
    \<^verbatim>\<open>mpf_mul\<close>) are parameters of the model as well: what is embedded is which operation is
    applied to which value, at which precision.
  \<^item> The evaluator also returns a log of what it did: the calls of \<^verbatim>\<open>bs\<close> with their
    arguments, the three products of the combination step, and the parallel regions.
\<close>

subsection \<open>Constants\<close>

definition A :: int where "A = 13591409"
definition B :: int where "B = 545140134"
definition C :: int where "C = 640320"
definition D :: int where "D = 12"

type_synonym ulong = "64 word"

subsection \<open>Triples of integers\<close>

text \<open>The three \<^verbatim>\<open>mpz_t\<close> variables \<^verbatim>\<open>pstack\<close>, \<^verbatim>\<open>qstack\<close>, \<^verbatim>\<open>gstack\<close> a call works on.\<close>

record triple =
  pstack :: int
  qstack :: int
  gstack :: int

text \<open>\<^verbatim>\<open>mpz_init\<close> sets a variable to zero (lines 129 to 131).\<close>

definition mpz_init :: triple where
  "mpz_init = \<lparr>pstack = 0, qstack = 0, gstack = 0\<rparr>"

subsection \<open>One term of the series (lines 110 to 125)\<close>

text \<open>
  \<^verbatim>\<open>mpz_set_ui\<close> and \<^verbatim>\<open>mpz_mul_ui\<close> take an \<^verbatim>\<open>unsigned long\<close>: the factors
  \<^verbatim>\<open>2*b-1\<close>, \<^verbatim>\<open>6*b-1\<close> and \<^verbatim>\<open>6*b-5\<close> are computed in \<^verbatim>\<open>unsigned long\<close> arithmetic before
  GMP sees them. The constants \<^verbatim>\<open>(C/24)*(C/24)\<close> and \<^verbatim>\<open>C*24\<close> are \<^verbatim>\<open>int\<close> expressions with
  the values 711822400 and 15367680, which fit.
\<close>

definition bs_term :: "ulong \<Rightarrow> triple" where
  "bs_term b =
    (let p = uint b * uint b * uint b * ((C div 24) * (C div 24)) * (C * 24);
         g = uint (2 * b - 1) * uint (6 * b - 1) * uint (6 * b - 5);
         q = (uint b * B + A) * g
     in \<lparr>pstack = p, qstack = (if b mod 2 \<noteq> 0 then - q else q), gstack = g\<rparr>)"

subsection \<open>The split point (line 178)\<close>

text \<open>The number of binary digits of a natural number.\<close>

fun nbits :: "nat \<Rightarrow> nat" where
  "nbits n = (if n = 0 then 0 else Suc (nbits (n div 2)))"

declare nbits.simps [simp del]

text \<open>
  Rounding a natural number to 53 significant binary digits, to nearest and ties to even:
  what binary64 arithmetic does to an exact result (the exponent range plays no role for
  the values that occur here).
\<close>

definition rne53 :: "nat \<Rightarrow> nat" where
  "rne53 n =
    (let s = nbits n - 53; q = n div 2 ^ s; r = n mod 2 ^ s
     in if 2 * r < 2 ^ s \<or> (2 * r = 2 ^ s \<and> even q) then q * 2 ^ s else (q + 1) * 2 ^ s)"

text \<open>
  \<^verbatim>\<open>mid = a+(b-a)*0.5224\<close>. The literal \<^verbatim>\<open>0.5224\<close> is the binary64 number
  \<open>4705360890676694 / 2 ^ 53\<close>. All values are kept as multiples of \<open>2 ^ - 53\<close>:
  \<open>x\<close> is \<^verbatim>\<open>(double)(b-a)\<close>, \<open>p / 2 ^ 53\<close> the rounded product, \<open>s / 2 ^ 53\<close> the rounded sum
  with \<^verbatim>\<open>(double)a\<close>. The conversion to \<^verbatim>\<open>unsigned long\<close> truncates; it is undefined in C
  when the value does not fit, which is \<open>None\<close> here.
\<close>

definition split_point :: "ulong \<Rightarrow> ulong \<Rightarrow> ulong option" where
  "split_point a b =
    (let x = rne53 (unat (b - a));
         p = rne53 (x * 4705360890676694);
         s = rne53 (rne53 (unat a) * 2 ^ 53 + p);
         m = s div 2 ^ 53
     in if m < 2 ^ 64 then Some (of_nat m) else None)"

subsection \<open>The OpenMP runtime and the log\<close>

text \<open>
  \<open>R n a b\<close> is the number of threads the runtime is willing to give to the region with
  \<^verbatim>\<open>num_threads(n)\<close> that the call on the range from \<open>a\<close> to \<open>b\<close> opens. A team has at least
  its primary thread and at most \<open>n\<close> threads.
\<close>

type_synonym omp = "nat \<Rightarrow> ulong \<Rightarrow> ulong \<Rightarrow> nat"

definition team :: "omp \<Rightarrow> nat \<Rightarrow> ulong \<Rightarrow> ulong \<Rightarrow> nat" where
  "team R n a b = max 1 (min n (R n a b))"

datatype product = PP | QP | QG

text \<open>
  \<open>Call a b tds\<close>: \<^verbatim>\<open>bs\<close> is entered with these arguments. \<open>Mul\<close>: one of the products of
  lines 198 to 200 is computed. \<open>Fork n j\<close> and \<open>Join\<close> enclose a parallel region that asked
  for \<open>n\<close> threads and runs with \<open>j\<close>; the events of its threads are listed by thread number.
\<close>

datatype event = Call ulong ulong int | Mul product | Fork nat nat | Join

subsection \<open>The combination step (lines 197 to 221)\<close>

text \<open>
  In the parallel region thread 0 computes the first product; the second product is
  computed by thread 1 and the third by thread 2, when the team has them.
\<close>

definition combine ::
  "omp \<Rightarrow> ulong \<Rightarrow> ulong \<Rightarrow> ulong \<Rightarrow> int \<Rightarrow> triple \<Rightarrow> triple \<Rightarrow> triple" where
  "combine R terms a b tds s1 s2 =
    (let serial = (b - a < 1000 \<or> tds < 3); j = team R 3 a b;
         p1 = pstack s1 * pstack s2;
         q1 = (if serial \<or> 1 < j then qstack s1 * pstack s2 else qstack s1);
         q2 = (if serial \<or> 2 < j then qstack s2 * gstack s1 else qstack s2);
         g1 = (if b < terms then gstack s1 * gstack s2 else gstack s1)
     in \<lparr>pstack = p1, qstack = q1 + q2, gstack = g1\<rparr>)"

definition combine_log :: "omp \<Rightarrow> ulong \<Rightarrow> ulong \<Rightarrow> int \<Rightarrow> event list" where
  "combine_log R a b tds =
    (if b - a < 1000 \<or> tds < 3 then [Mul PP, Mul QP, Mul QG]
     else (let j = team R 3 a b in Fork 3 j # take j [Mul PP, Mul QP, Mul QG] @ [Join]))"

subsection \<open>Binary splitting (lines 96 to 224)\<close>

text \<open>
  \<open>terms\<close> is the global variable of that name; the comparison \<^verbatim>\<open>b < terms\<close> converts it to
  \<^verbatim>\<open>unsigned long\<close>. A call that does not return has the value \<open>None\<close>. The variables
  \<^verbatim>\<open>pstack2\<close>, \<^verbatim>\<open>qstack2\<close>, \<^verbatim>\<open>gstack2\<close> hold zero until the call on the right part fills them:
  in the parallel region of lines 184 to 193 thread 0 makes the call on the left part and
  thread 1, when the team has one, the call on the right part.
\<close>

partial_function (option) bs ::
  "omp \<Rightarrow> ulong \<Rightarrow> ulong \<Rightarrow> ulong \<Rightarrow> int \<Rightarrow> (triple \<times> event list) option" where
  "bs R terms a b tds =
    (if b - a = 1 then Some (bs_term b, [Call a b tds])
     else if b - a = 2 then
       Some (combine R terms a b tds (bs_term (b - 1)) (bs_term b),
             Call a b tds # combine_log R a b tds)
     else
       do {
         mid \<leftarrow> split_point a b;
         let tds0 = tds sdiv 2;
         let tds1 = tds - tds0;
         if b - a < 1000 \<or> tds < 2 then
           do {
             (s1, l1) \<leftarrow> bs R terms a mid tds0;
             (s2, l2) \<leftarrow> bs R terms mid b tds1;
             Some (combine R terms a b tds s1 s2,
                   Call a b tds # l1 @ l2 @ combine_log R a b tds)
           }
         else
           do {
             let j = team R 2 a b;
             (s1, l1) \<leftarrow> bs R terms a mid tds0;
             (s2, l2) \<leftarrow> (if 1 < j then bs R terms mid b tds1 else Some (mpz_init, []));
             Some (combine R terms a b tds s1 s2,
                   Call a b tds # Fork 2 j # l1 @ l2 @ Join # combine_log R a b tds)
           }
       })"

subsection \<open>The start of the binary splitting process (lines 280 to 286)\<close>

text \<open>
  The part of \<^verbatim>\<open>main\<close> that produces the root triple from \<^verbatim>\<open>terms\<close> and \<^verbatim>\<open>threads\<close>; the
  specification calls it \<^verbatim>\<open>evaluate_terms\<close>. \<^verbatim>\<open>terms\<close> is a \<^verbatim>\<open>long\<close>: the test \<^verbatim>\<open>terms<=0\<close>
  reads it as a signed number. The log is empty when \<^verbatim>\<open>bs\<close> is not called.
\<close>

definition evaluate_terms :: "omp \<Rightarrow> ulong \<Rightarrow> int \<Rightarrow> (triple \<times> event list) option" where
  "evaluate_terms R terms threads =
    (if sint terms \<le> 0 then Some (\<lparr>pstack = 1, qstack = 0, gstack = 1\<rparr>, [])
     else bs R terms 0 terms threads)"

subsection \<open>The evaluator without the pruning of the last product\<close>



subsection \<open>The conversion to a floating-point value (lines 298 to 355)\<close>

text \<open>
  The floating-point operations of GMP are parameters of the model: each takes the
  precision of the variable it writes to, which is the default precision in force when the
  variable was initialised, and its operands. All variables of \<^verbatim>\<open>main\<close> are initialised
  after the call of \<^verbatim>\<open>mpf_set_default_prec\<close>.
\<close>

record 'f mpf_ops =
  mpf_set_z :: "ulong \<Rightarrow> int \<Rightarrow> 'f"
  mpf_div :: "ulong \<Rightarrow> 'f \<Rightarrow> 'f \<Rightarrow> 'f"
  mpf_sqrt_ui :: "ulong \<Rightarrow> ulong \<Rightarrow> 'f"
  mpf_mul :: "ulong \<Rightarrow> 'f \<Rightarrow> 'f \<Rightarrow> 'f"

text \<open>Rounding an integer to 53 significant binary digits; the sign is kept.\<close>

definition rne53_int :: "int \<Rightarrow> int" where
  "rne53_int k = sgn k * int (rne53 (nat \<bar>k\<bar>))"

text \<open>
  \<^verbatim>\<open>(long)(d*BITS_PER_DIGIT+16)\<close> for the \<^verbatim>\<open>long\<close> value \<open>d\<close>. The literal
  \<^verbatim>\<open>3.32192809488736234787\<close> is the binary64 number \<open>7480317065143153 / 2 ^ 51\<close>, and the values
  are kept as multiples of \<open>2 ^ - 51\<close>. The conversion to \<^verbatim>\<open>long\<close> truncates towards zero and is
  undefined when the value does not fit.
\<close>

definition default_prec :: "ulong \<Rightarrow> ulong option" where
  "default_prec d =
    (let x = rne53_int (sint d);
         p = rne53_int (x * 7480317065143153);
         s = rne53_int (p + 16 * 2 ^ 51);
         m = s sdiv 2 ^ 51
     in if - (2 ^ 63) \<le> m \<and> m < 2 ^ 63 then Some (word_of_int m) else None)"

text \<open>
  The end of \<^verbatim>\<open>main\<close> from line 298 on, for the digit count \<open>d\<close>, the integers left by the
  binary splitting process and \<^verbatim>\<open>threads\<close>; the specification calls it \<^verbatim>\<open>finalize\<close>.
  \<open>granted\<close> is the number of threads the runtime is willing to give to the parallel region
  of lines 331 to 343. In that region thread 0 divides, and thread 1, when the team has
  one, initialises \<^verbatim>\<open>ci\<close> and takes the square root. The product of line 355 reads \<^verbatim>\<open>ci\<close>:
  it has no defined result when \<^verbatim>\<open>ci\<close> was never initialised, which is \<open>None\<close>.
\<close>

definition finalize :: "'f mpf_ops \<Rightarrow> nat \<Rightarrow> ulong \<Rightarrow> int \<Rightarrow> int \<Rightarrow> int \<Rightarrow> 'f option" where
  "finalize M granted d pstack0 qstack0 threads =
    (case default_prec d of
       None \<Rightarrow> None
     | Some prec \<Rightarrow>
        (let qstack1 = qstack0 + pstack0 * A;
             pstack1 = pstack0 * (C sdiv D);
             pi = mpf_set_z M prec pstack1;
             qi = mpf_set_z M prec qstack1;
             j = max 1 (min 2 granted);
             qi' = mpf_div M prec pi qi;
             ci = (if threads < 2 then Some (mpf_sqrt_ui M prec (word_of_int C))
                   else if 1 < j then Some (mpf_sqrt_ui M prec (word_of_int C))
                   else None)
         in map_option (mpf_mul M prec qi') ci))"

subsection \<open>Reference values\<close>

text \<open>
  Term \<open>j\<close> of the series with unbounded integers, as the comment of lines 104 to 108
  gives it, and the combination rule of the comment of lines 170 to 174 with all three
  components. \<open>series a n\<close> combines the terms \<open>a + 1\<close> to \<open>a + n\<close> one after the other, from
  the left.
\<close>

definition term_exact :: "nat \<Rightarrow> triple" where
  "term_exact j =
    (let g = (6 * int j - 5) * (2 * int j - 1) * (6 * int j - 1)
     in \<lparr>pstack = int j ^ 3 * (C ^ 3 div 24),
         qstack = (if odd j then - (g * (A + B * int j)) else g * (A + B * int j)),
         gstack = g\<rparr>)"

definition merge :: "triple \<Rightarrow> triple \<Rightarrow> triple" where
  "merge s1 s2 =
    \<lparr>pstack = pstack s1 * pstack s2,
     qstack = qstack s1 * pstack s2 + qstack s2 * gstack s1,
     gstack = gstack s1 * gstack s2\<rparr>"

fun series :: "nat \<Rightarrow> nat \<Rightarrow> triple" where
  "series a 0 = \<lparr>pstack = 1, qstack = 0, gstack = 1\<rparr>"
| "series a (Suc n) = merge (series a n) (term_exact (a + Suc n))"

text \<open>A runtime that gives every parallel region the threads it asks for.\<close>

definition full_teams :: "omp \<Rightarrow> bool" where
  "full_teams R = (\<forall>n a b. n \<le> R n a b)"

text \<open>
  \<open>agrees terms b t s\<close>: the triple \<open>t\<close> left by a call with right end \<open>b\<close> has the first two
  components of \<open>s\<close>, and the third one as well when \<open>b\<close> is below \<^verbatim>\<open>terms\<close>.
\<close>

definition agrees :: "ulong \<Rightarrow> ulong \<Rightarrow> triple \<Rightarrow> triple \<Rightarrow> bool" where
  "agrees terms b t s =
    (pstack t = pstack s \<and> qstack t = qstack s \<and> (b < terms \<longrightarrow> gstack t = gstack s))"

text \<open>A call event is well formed when its range is not empty.\<close>

fun wf_call :: "event \<Rightarrow> bool" where
  "wf_call (Call a b tds) = (a < b)"
| "wf_call (Mul p) = True"
| "wf_call (Fork n j) = True"
| "wf_call Join = True"

text \<open>The events that do not belong to a parallel region's bracket.\<close>

fun serial_event :: "event \<Rightarrow> bool" where
  "serial_event (Call a b tds) = True"
| "serial_event (Mul p) = True"
| "serial_event (Fork n j) = False"
| "serial_event Join = False"

section \<open>The split point falls inside the range\<close>

text \<open>
  Every natural number up to \<open>2 ^ 53\<close> is a binary64 number. When the indices stay in that
  range the rounded value of \<^verbatim>\<open>a+(b-a)*0.5224\<close> lies between the binary64 numbers \<open>a + 1\<close>
  and \<open>b - 1\<close>, because the exact value does and rounding cannot cross a representable number.
\<close>

lemma nbits_le: "n < 2 ^ w \<Longrightarrow> nbits n \<le> w"
proof (induction w arbitrary: n)
  case 0
  then show ?case by (simp add: nbits.simps)
next
  case (Suc w)
  show ?case
  proof (cases "n = 0")
    case True
    then show ?thesis by (simp add: nbits.simps)
  next
    case False
    from Suc.prems have "n div 2 < 2 ^ w" by simp
    then have "nbits (n div 2) \<le> w" by (rule Suc.IH)
    with False show ?thesis by (subst nbits.simps) simp
  qed
qed

lemma rne53_cases:
  "rne53 n = (n div 2 ^ (nbits n - 53)) * 2 ^ (nbits n - 53) \<or>
   rne53 n = (n div 2 ^ (nbits n - 53) + 1) * 2 ^ (nbits n - 53)"
  by (simp add: rne53_def Let_def)

lemma rne53_dvd: "2 ^ (nbits n - 53) dvd n \<Longrightarrow> rne53 n = n"
  by (auto simp add: rne53_def Let_def mod_eq_0_iff_dvd)

lemma rne53_lower:
  assumes "n < 2 ^ 106" and "2 ^ 53 dvd x" and "x \<le> n"
  shows "x \<le> rne53 n"
proof -
  define s where "s = nbits n - 53"
  have "nbits n \<le> 106" using assms(1) by (rule nbits_le)
  then have "s \<le> 53" by (simp add: s_def)
  then have "(2::nat) ^ s dvd 2 ^ 53" by (rule le_imp_power_dvd)
  then have "2 ^ s dvd x" using assms(2) by (rule dvd_trans)
  then obtain y where x: "x = y * 2 ^ s" by (auto simp: dvd_def mult.commute)
  from assms(3) have "y \<le> n div 2 ^ s" unfolding x
    by (simp add: less_eq_div_iff_mult_less_eq)
  then have "x \<le> (n div 2 ^ s) * 2 ^ s" unfolding x by simp
  moreover have "(n div 2 ^ s) * 2 ^ s \<le> (n div 2 ^ s + 1) * 2 ^ s" by simp
  ultimately show ?thesis using rne53_cases [of n] unfolding s_def by auto
qed

lemma rne53_upper:
  assumes "n < 2 ^ 106" and "2 ^ 53 dvd x" and "n \<le> x"
  shows "rne53 n \<le> x"
proof -
  define s where "s = nbits n - 53"
  have "nbits n \<le> 106" using assms(1) by (rule nbits_le)
  then have "s \<le> 53" by (simp add: s_def)
  then have "(2::nat) ^ s dvd 2 ^ 53" by (rule le_imp_power_dvd)
  then have d: "2 ^ s dvd x" using assms(2) by (rule dvd_trans)
  then obtain y where x: "x = y * 2 ^ s" by (auto simp: dvd_def mult.commute)
  show ?thesis
  proof (cases "n = x")
    case True
    with d have "2 ^ (nbits n - 53) dvd n" by (simp add: s_def)
    then have "rne53 n = n" by (rule rne53_dvd)
    with True show ?thesis by simp
  next
    case False
    with assms(3) have "n < y * 2 ^ s" unfolding x by simp
    then have "n div 2 ^ s < y" by (simp add: div_less_iff_less_mult)
    then have "n div 2 ^ s + 1 \<le> y" by simp
    then have "(n div 2 ^ s + 1) * 2 ^ s \<le> x" unfolding x by (rule mult_le_mono1)
    moreover have "(n div 2 ^ s) * 2 ^ s \<le> (n div 2 ^ s + 1) * 2 ^ s" by simp
    ultimately show ?thesis using rne53_cases [of n] unfolding s_def by auto
  qed
qed

lemma rne53_exact:
  assumes "n \<le> 2 ^ 53" shows "rne53 n = n"
proof (cases "n = 2 ^ 53")
  case True
  have "nbits n \<le> 54" by (rule nbits_le) (simp add: True)
  then have "nbits n - 53 \<le> 53" by simp
  then have "(2::nat) ^ (nbits n - 53) dvd 2 ^ 53" by (rule le_imp_power_dvd)
  then show ?thesis using True by (simp add: rne53_dvd)
next
  case False
  with assms have "n < 2 ^ 53" by simp
  then have "nbits n \<le> 53" by (rule nbits_le)
  then show ?thesis by (simp add: rne53_dvd)
qed

lemma rne53_ge: "n < 2 ^ 106 \<Longrightarrow> y * 2 ^ 53 \<le> n \<Longrightarrow> y * 2 ^ 53 \<le> rne53 n"
  by (rule rne53_lower) simp_all

lemma rne53_le: "n < 2 ^ 106 \<Longrightarrow> n \<le> y * 2 ^ 53 \<Longrightarrow> rne53 n \<le> y * 2 ^ 53"
  by (rule rne53_upper) simp_all

lemma split_nat_range:
  fixes ua k :: nat
  assumes k: "3 \<le> k" and ub: "ua + k \<le> 2 ^ 53"
  defines "m \<equiv> rne53 (rne53 ua * 2 ^ 53 + rne53 (rne53 k * 4705360890676694)) div 2 ^ 53"
  shows "ua < m \<and> m < ua + k"
proof -
  from k ub have k53: "k \<le> 2 ^ 53" and ua53: "ua \<le> 2 ^ 53" by simp_all
  have xk: "rne53 k = k" using k53 by (rule rne53_exact)
  have xa: "rne53 ua = ua" using ua53 by (rule rne53_exact)
  define p where "p = rne53 (k * 4705360890676694)"
  have small: "k * 4705360890676694 < 2 ^ 106" using k53 by simp
  have "1 * 2 ^ 53 \<le> p" unfolding p_def using small
    by (rule rne53_ge) (use k in simp)
  then have p_lo: "2 ^ 53 \<le> p" by simp
  have p_hi: "p \<le> (k - 1) * 2 ^ 53" unfolding p_def using small
    by (rule rne53_le) (use k in \<open>simp add: algebra_simps\<close>)
  define s where "s = rne53 (ua * 2 ^ 53 + p)"
  have small': "ua * 2 ^ 53 + p < 2 ^ 106" using p_hi ub k by (simp add: algebra_simps)
  have s_lo: "(ua + 1) * 2 ^ 53 \<le> s" unfolding s_def using small'
    by (rule rne53_ge) (use p_lo in simp)
  have s_hi: "s \<le> (ua + k - 1) * 2 ^ 53" unfolding s_def using small'
    by (rule rne53_le) (use p_hi k in \<open>simp add: algebra_simps\<close>)
  have m: "m = s div 2 ^ 53" by (simp add: m_def s_def p_def xk xa)
  from s_lo have "ua + 1 \<le> m" unfolding m by (simp add: less_eq_div_iff_mult_less_eq)
  moreover from s_hi have "m \<le> ua + k - 1" unfolding m
    by (metis div_le_mono div_mult_self_is_m zero_less_numeral zero_less_power)
  ultimately show ?thesis using k by simp
qed

lemma split_point_range:
  assumes "a < b" and "unat b \<le> 2 ^ 53" and "2 < b - a"
  shows "\<exists>mid. split_point a b = Some mid \<and> a < mid \<and> mid < b"
proof -
  from assms(1) have sub: "unat (b - a) = unat b - unat a"
    by (simp add: unat_sub word_less_nat_alt less_imp_le)
  from assms(3) have k: "3 \<le> unat (b - a)" by (simp add: word_less_nat_alt)
  from assms(1) have ab: "unat a < unat b" by (simp add: word_less_nat_alt)
  define m where "m = rne53 (rne53 (unat a) * 2 ^ 53 +
      rne53 (rne53 (unat (b - a)) * 4705360890676694)) div 2 ^ 53"
  have "unat a + unat (b - a) \<le> 2 ^ 53" using sub ab assms(2) by simp
  with k have r: "unat a < m \<and> m < unat a + unat (b - a)"
    unfolding m_def by (rule split_nat_range)
  then have mb: "m < unat b" using sub ab by simp
  then have m64: "m < 2 ^ 64" using assms(2) by simp
  then have um: "unat (of_nat m :: ulong) = m" by (intro of_nat_inverse [OF refl]) simp
  have "split_point a b = Some (of_nat m)"
    using m64 by (simp add: split_point_def Let_def m_def)
  moreover have "a < (of_nat m :: ulong)" using r um by (simp add: word_less_nat_alt)
  moreover have "(of_nat m :: ulong) < b" using mb um by (simp add: word_less_nat_alt)
  ultimately show ?thesis by blast
qed

section \<open>A single term without wrap-around\<close>

lemma uint_affine:
  fixes b c d :: ulong
  assumes "uint c * uint b < 2 ^ 64" and "uint d \<le> uint c * uint b"
  shows "uint (c * b - d) = uint c * uint b - uint d"
proof -
  have m: "uint (c * b) = uint c * uint b"
    using assms(1) uint_mult_lem [of c b] by simp
  with assms(2) have "uint d \<le> uint (c * b)" by simp
  then have "uint (c * b - d) = uint (c * b) - uint d"
    using uint_sub_lem [of d "c * b"] by simp
  with m show ?thesis by simp
qed

lemma odd_ulong: "(b mod 2 \<noteq> 0) = odd (unat b)" for b :: ulong
  by (metis even_iff_mod_2_eq_zero even_of_nat mod_by_0 unsigned_0 word_arith_nat_mod)

lemma uint_of_unat_bounds:
  fixes b :: ulong
  assumes "1 \<le> unat b" and "6 * unat b < 2 ^ 64"
  shows "1 \<le> uint b" and "6 * uint b < 2 ^ 64"
proof -
  from assms(1) have "int 1 \<le> int (unat b)" by (simp only: of_nat_le_iff)
  then show "1 \<le> uint b" by simp
  from assms(2) have "int (6 * unat b) < int (2 ^ 64)" by (simp only: of_nat_less_iff)
  then show "6 * uint b < 2 ^ 64" by simp
qed

lemma bs_term_exact:
  assumes "1 \<le> unat b" and "6 * unat b < 2 ^ 64"
  shows "bs_term b = term_exact (unat b)"
proof -
  note u = uint_of_unat_bounds [OF assms]
  have g2: "uint (2 * b - 1) = 2 * uint b - 1"
    using uint_affine [of 2 b 1] u by simp
  have g61: "uint (6 * b - 1) = 6 * uint b - 1"
    using uint_affine [of 6 b 1] u by simp
  have g65: "uint (6 * b - 5) = 6 * uint b - 5"
    using uint_affine [of 6 b 5] u by simp
  have k: "(C div 24) * (C div 24) * (C * 24) = C ^ 3 div 24" by (simp add: C_def)
  have p: "uint b * uint b * uint b * ((C div 24) * (C div 24)) * (C * 24)
      = uint b ^ 3 * (C ^ 3 div 24)"
    unfolding k [symmetric] by (simp add: power3_eq_cube)
  show ?thesis
    unfolding bs_term_def term_exact_def Let_def p g2 g61 g65 odd_ulong
    by (simp add: algebra_simps)
qed

lemma bs_term_exact_53:
  assumes "0 < unat b" and "unat b \<le> 2 ^ 53"
  shows "bs_term b = term_exact (unat b)"
  using assms by (intro bs_term_exact) simp_all

section \<open>The combination rule is associative\<close>

lemma merge_assoc: "merge (merge x y) z = merge x (merge y z)"
  by (simp add: merge_def algebra_simps)

lemma merge_unit_right: "merge x \<lparr>pstack = 1, qstack = 0, gstack = 1\<rparr> = x"
  by (simp add: merge_def)

lemma merge_unit_left: "merge \<lparr>pstack = 1, qstack = 0, gstack = 1\<rparr> x = x"
  by (simp add: merge_def)

lemma series_add: "series a (n + m) = merge (series a n) (series (a + n) m)"
proof (induction m)
  case 0
  show ?case by (simp add: merge_unit_right)
next
  case (Suc m)
  have "series a (n + Suc m) = merge (series a (n + m)) (term_exact (a + Suc (n + m)))"
    by simp
  also have "\<dots> = merge (series a n) (merge (series (a + n) m) (term_exact (a + n + Suc m)))"
    by (simp add: Suc.IH merge_assoc add.assoc)
  finally show ?case by simp
qed

lemma series_one: "series a (Suc 0) = term_exact (Suc a)"
  by (simp add: merge_unit_left)

lemma series_two: "series a 2 = merge (term_exact (Suc a)) (term_exact (Suc (Suc a)))"
  by (simp add: numeral_2_eq_2 merge_unit_left)

lemma pstack_term_exact_pos: "0 < j \<Longrightarrow> 0 < pstack (term_exact j)"
  by (simp add: term_exact_def Let_def C_def)

lemma pstack_series_pos: "0 < pstack (series a n)"
  by (induction n) (simp_all add: merge_def pstack_term_exact_pos)

section \<open>Unfolding one call\<close>

lemma bs_width_1: "b - a = 1 \<Longrightarrow> bs R terms a b tds = Some (bs_term b, [Call a b tds])"
  by (subst bs.simps) simp

lemma bs_width_2:
  "b - a = 2 \<Longrightarrow> bs R terms a b tds =
     Some (combine R terms a b tds (bs_term (b - 1)) (bs_term b),
           Call a b tds # combine_log R a b tds)"
  by (subst bs.simps) simp

lemma bs_split_both:
  assumes "b - a \<noteq> 1" and "b - a \<noteq> 2" and "split_point a b = Some mid"
    and "bs R terms a mid (tds sdiv 2) = Some (s1, l1)"
    and "bs R terms mid b (tds - tds sdiv 2) = Some (s2, l2)"
    and "b - a < 1000 \<or> tds < 2 \<or> 1 < team R 2 a b"
  shows "bs R terms a b tds =
     Some (combine R terms a b tds s1 s2,
           Call a b tds #
           (if b - a < 1000 \<or> tds < 2 then l1 @ l2
            else Fork 2 (team R 2 a b) # l1 @ l2 @ [Join]) @ combine_log R a b tds)"
  using assms by (subst bs.simps) (auto simp: Let_def)

lemma bs_split_left:
  assumes "b - a \<noteq> 1" and "b - a \<noteq> 2" and "split_point a b = Some mid"
    and "bs R terms a mid (tds sdiv 2) = Some (s1, l1)"
    and "\<not> (b - a < 1000 \<or> tds < 2 \<or> 1 < team R 2 a b)"
  shows "bs R terms a b tds =
     Some (combine R terms a b tds s1 mpz_init,
           Call a b tds # Fork 2 (team R 2 a b) # l1 @ Join # combine_log R a b tds)"
  using assms by (subst bs.simps) (auto simp: Let_def)

lemma bs_logs_call:
  assumes "bs R terms a b tds = Some (t, lg)"
  shows "\<exists>rest. lg = Call a b tds # rest"
  using assms
  by (subst (asm) bs.simps) (auto simp: Let_def split: if_splits Option.bind_splits prod.splits)

section \<open>Induction over the ranges of a call\<close>

text \<open>
  A property holds for every call on a range of representable indices when it holds for
  the ranges of width one and two and is passed from the two parts of a range to the range.
\<close>

lemma unat_width: "a < b \<Longrightarrow> unat (b - a) = unat b - unat a" for a b :: ulong
  by (simp add: unat_sub word_less_nat_alt less_imp_le)

lemma width_1_unat:
  fixes a b :: ulong
  assumes "a < b" and "b - a = 1"
  shows "unat b = Suc (unat a)"
proof -
  from assms have "unat b - unat a = 1" using unat_width [of a b] by simp
  then show ?thesis by simp
qed

lemma width_2_unat:
  fixes a b :: ulong
  assumes "a < b" and "b - a = 2"
  shows "unat b = Suc (Suc (unat a))" and "unat (b - 1) = Suc (unat a)"
proof -
  from assms have "unat b - unat a = 2" using unat_width [of a b] by simp
  then show b: "unat b = Suc (Suc (unat a))" by simp
  then have "b \<noteq> 0" by (auto simp: unat_eq_0)
  then have "unat (b - 1) = unat b - 1" by (rule unat_minus_one)
  with b show "unat (b - 1) = Suc (unat a)" by simp
qed

lemma width_cases:
  fixes a b :: ulong
  assumes "a < b"
  obtains "b - a = 1" | "b - a = 2" | "b - a \<noteq> 1" "b - a \<noteq> 2" "2 < b - a"
proof -
  from assms have "unat (b - a) = unat b - unat a"
    by (simp add: unat_sub word_less_nat_alt less_imp_le)
  moreover from assms have "unat a < unat b" by (simp add: word_less_nat_alt)
  ultimately have pos: "0 < unat (b - a)" by simp
  show ?thesis
  proof (cases "b - a = 1 \<or> b - a = 2")
    case True
    then show ?thesis using that by blast
  next
    case False
    then have "unat (b - a) \<noteq> 1" and "unat (b - a) \<noteq> 2"
      by (simp_all add: word_unat_eq_iff)
    with pos have "2 < unat (b - a)" by simp
    then have "2 < b - a" by (simp add: word_less_nat_alt)
    with False show ?thesis using that by blast
  qed
qed

lemma bs_range_induct [consumes 2, case_names one two split]:
  fixes a b :: ulong
  assumes "a < b" and "unat b \<le> 2 ^ 53"
    and one: "\<And>a b. a < b \<Longrightarrow> unat b \<le> 2 ^ 53 \<Longrightarrow> b - a = 1 \<Longrightarrow> Pr a b"
    and two: "\<And>a b. a < b \<Longrightarrow> unat b \<le> 2 ^ 53 \<Longrightarrow> b - a = 2 \<Longrightarrow> Pr a b"
    and split: "\<And>a b mid. a < mid \<Longrightarrow> mid < b \<Longrightarrow> unat b \<le> 2 ^ 53 \<Longrightarrow>
        b - a \<noteq> 1 \<Longrightarrow> b - a \<noteq> 2 \<Longrightarrow> split_point a b = Some mid \<Longrightarrow>
        Pr a mid \<Longrightarrow> Pr mid b \<Longrightarrow> Pr a b"
  shows "Pr a b"
  using assms(1,2)
proof (induction "unat b - unat a" arbitrary: a b rule: less_induct)
  case less
  from \<open>a < b\<close> show ?case
  proof (cases rule: width_cases)
    case 1
    with less.prems show ?thesis by (intro one)
  next
    case 2
    with less.prems show ?thesis by (intro two)
  next
    case 3
    from split_point_range [OF less.prems(1,2) 3(3)]
    obtain mid where mid: "split_point a b = Some mid" "a < mid" "mid < b" by blast
    then have lt: "unat a < unat mid" "unat mid < unat b"
      by (simp_all add: word_less_nat_alt)
    with less.prems(2) have mid53: "unat mid \<le> 2 ^ 53" by simp
    have l: "Pr a mid" using mid(2) mid53 lt by (intro less.hyps) simp_all
    have r: "Pr mid b" using mid(3) less.prems(2) lt by (intro less.hyps) simp_all
    show ?thesis using mid(2,3) less.prems(2) 3(1,2) mid(1) l r by (rule split)
  qed
qed

section \<open>Every call on a range of representable indices returns\<close>

lemma bs_returns:
  assumes "a < b" and "unat b \<le> 2 ^ 53"
  shows "\<exists>t rest. bs R terms a b tds = Some (t, Call a b tds # rest)"
proof -
  from assms have "\<forall>tds. \<exists>t rest. bs R terms a b tds = Some (t, Call a b tds # rest)"
  proof (induction rule: bs_range_induct)
    case (one a b)
    then show ?case by (simp add: bs_width_1)
  next
    case (two a b)
    then show ?case by (simp add: bs_width_2)
  next
    case (split a b mid)
    show ?case
    proof
      fix tds
      from split.IH(1) obtain s1 l1 where
        l: "bs R terms a mid (tds sdiv 2) = Some (s1, l1)" by blast
      from split.IH(2) obtain s2 l2 where
        r: "bs R terms mid b (tds - tds sdiv 2) = Some (s2, l2)" by blast
      show "\<exists>t rest. bs R terms a b tds = Some (t, Call a b tds # rest)"
      proof (cases "b - a < 1000 \<or> tds < 2 \<or> 1 < team R 2 a b")
        case True
        from bs_split_both [OF split.hyps(4,5,6) l r True] show ?thesis by blast
      next
        case False
        from bs_split_left [OF split.hyps(4,5,6) l False] show ?thesis by blast
      qed
    qed
  qed
  then show ?thesis by blast
qed

lemma combine_log_wf: "list_all wf_call (combine_log R a b tds)"
  by (auto simp: combine_log_def Let_def list_all_iff dest!: in_set_takeD)

lemma bs_calls_wf:
  assumes "a < b" and "unat b \<le> 2 ^ 53"
  shows "\<exists>t lg. bs R terms a b tds = Some (t, lg) \<and> list_all wf_call lg"
proof -
  from assms have "\<forall>tds. \<exists>t lg. bs R terms a b tds = Some (t, lg) \<and> list_all wf_call lg"
  proof (induction rule: bs_range_induct)
    case (one a b)
    then show ?case by (simp add: bs_width_1)
  next
    case (two a b)
    then show ?case by (simp add: bs_width_2 combine_log_wf)
  next
    case (split a b mid)
    from split.hyps(1,2) have ab: "a < b" by simp
    show ?case
    proof
      fix tds :: int
      from split.IH(1) obtain s1 l1 where
        l: "bs R terms a mid (tds sdiv 2) = Some (s1, l1)" and wl: "list_all wf_call l1"
        by blast
      from split.IH(2) obtain s2 l2 where
        r: "bs R terms mid b (tds - tds sdiv 2) = Some (s2, l2)" and wr: "list_all wf_call l2"
        by blast
      show "\<exists>t lg. bs R terms a b tds = Some (t, lg) \<and> list_all wf_call lg"
      proof (cases "b - a < 1000 \<or> tds < 2 \<or> 1 < team R 2 a b")
        case True
        from bs_split_both [OF split.hyps(4,5,6) l r True] ab wl wr show ?thesis
          by (auto simp: combine_log_wf)
      next
        case False
        from bs_split_left [OF split.hyps(4,5,6) l False] ab wl show ?thesis
          by (auto simp: combine_log_wf)
      qed
    qed
  qed
  then show ?thesis by blast
qed

section \<open>The value of a call\<close>

text \<open>
  When every product of every combination step is computed (the budget is below two, or
  the runtime gives full teams) a call on a range inside \<^verbatim>\<open>terms\<close> returns the first two
  components of the series over its range, and the third one when its right end is
  below \<^verbatim>\<open>terms\<close>.
\<close>

lemma team_full: "full_teams R \<Longrightarrow> 0 < n \<Longrightarrow> team R n a b = n"
  by (simp add: team_def full_teams_def max_def min_def)

lemma team_granted: "0 < n \<Longrightarrow> team (\<lambda>n a b. n) n a b = n"
  by (simp add: team_def)

lemma combine_all_products:
  assumes "b - a < 1000 \<or> tds < 3 \<or> full_teams R"
  shows "combine R terms a b tds s1 s2 =
     \<lparr>pstack = pstack s1 * pstack s2,
      qstack = qstack s1 * pstack s2 + qstack s2 * gstack s1,
      gstack = (if b < terms then gstack s1 * gstack s2 else gstack s1)\<rparr>"
  using assms by (auto simp: combine_def Let_def team_full)

lemma agrees_combine:
  assumes "agrees terms mid s1 t1" and "mid < terms" and "agrees terms b s2 t2"
    and "b - a < 1000 \<or> tds < 3 \<or> full_teams R"
  shows "agrees terms b (combine R terms a b tds s1 s2) (merge t1 t2)"
  using assms(1,2,3) unfolding combine_all_products [OF assms(4)]
  by (simp add: agrees_def merge_def)


lemma budget_below_2:
  fixes tds :: int
  assumes "tds < 2"
  shows "tds sdiv 2 < 2" and "tds - tds sdiv 2 < 2"
  using assms by (auto simp: signed_divide_int_def sgn_if)

lemma sdiv_2_nonneg: "0 \<le> tds \<Longrightarrow> tds sdiv 2 = tds div 2" for tds :: int
  by (auto simp: signed_divide_int_def sgn_if)

lemma bs_series:
  assumes "a < b" and "unat b \<le> 2 ^ 53" and "b \<le> terms" and "tds < 2 \<or> full_teams R"
  shows "\<exists>t lg. bs R terms a b tds = Some (t, lg) \<and>
           agrees terms b t (series (unat a) (unat b - unat a))"
proof -
  from assms(1,2)
  have "b \<le> terms \<longrightarrow> (\<forall>tds. tds < 2 \<or> full_teams R \<longrightarrow>
     (\<exists>t lg. bs R terms a b tds = Some (t, lg) \<and>
           agrees terms b t (series (unat a) (unat b - unat a))))"
  proof (induction rule: bs_range_induct)
    case (one a b)
    from one(1,3) have b: "unat b = Suc (unat a)" by (rule width_1_unat)
    then have "bs_term b = term_exact (unat b)" using one(2) by (intro bs_term_exact_53) simp_all
    then show ?case using one(3) b by (simp add: bs_width_1 agrees_def merge_unit_left)
  next
    case (two a b)
    note u = width_2_unat [OF two(1,3)]
    have t2: "bs_term b = term_exact (Suc (Suc (unat a)))"
      using bs_term_exact_53 [of b] two(2) u(1) by simp
    have "unat (b - 1) \<le> 2 ^ 53" using two(2) u by simp
    then have t1: "bs_term (b - 1) = term_exact (Suc (unat a))"
      using bs_term_exact_53 [of "b - 1"] u(2) by simp
    have w: "unat b - unat a = 2" using u(1) by simp
    have ser: "b - a < 1000 \<or> tds < 3 \<or> full_teams R" for tds :: int using two(3) by simp
    show ?case
      unfolding w series_two bs_width_2 [OF two(3)] t1 t2
      by (simp add: agrees_def combine_all_products [OF ser] merge_def)
  next
    case (split a b mid)
    show ?case
    proof (intro impI allI)
      fix tds :: int
      assume bt: "b \<le> terms" and mode: "tds < 2 \<or> full_teams R"
      from split.hyps(2) bt have mt: "mid < terms" and mt': "mid \<le> terms" by simp_all
      from mode have mode0: "tds sdiv 2 < 2 \<or> full_teams R"
        and mode1: "tds - tds sdiv 2 < 2 \<or> full_teams R"
        using budget_below_2 [of tds] by blast+
      from split.IH(1) mt' mode0 obtain s1 l1 where
        l: "bs R terms a mid (tds sdiv 2) = Some (s1, l1)"
        and al: "agrees terms mid s1 (series (unat a) (unat mid - unat a))" by blast
      from split.IH(2) bt mode1 obtain s2 l2 where
        r: "bs R terms mid b (tds - tds sdiv 2) = Some (s2, l2)"
        and ar: "agrees terms b s2 (series (unat mid) (unat b - unat mid))" by blast
      from mode have both: "b - a < 1000 \<or> tds < 2 \<or> 1 < team R 2 a b"
        by (auto simp: team_full)
      from mode have prods: "b - a < 1000 \<or> tds < 3 \<or> full_teams R" by auto
      from split.hyps(1,2) have lt: "unat a < unat mid" "unat mid < unat b"
        by (simp_all add: word_less_nat_alt)
      have "series (unat a) ((unat mid - unat a) + (unat b - unat mid))
          = merge (series (unat a) (unat mid - unat a))
              (series (unat a + (unat mid - unat a)) (unat b - unat mid))"
        by (rule series_add)
      with lt have ser: "series (unat a) (unat b - unat a)
          = merge (series (unat a) (unat mid - unat a)) (series (unat mid) (unat b - unat mid))"
        by simp
      have "agrees terms b (combine R terms a b tds s1 s2) (series (unat a) (unat b - unat a))"
        unfolding ser using al mt ar prods by (rule agrees_combine)
      with bs_split_both [OF split.hyps(4,5,6) l r both]
      show "\<exists>t lg. bs R terms a b tds = Some (t, lg) \<and>
           agrees terms b t (series (unat a) (unat b - unat a))" by blast
    qed
  qed
  with assms(3,4) show ?thesis by blast
qed

section \<open>The budget and the result\<close>

lemma sint_pos_word_pos:
  fixes terms :: ulong
  assumes "0 < sint terms"
  shows "0 < terms"
proof -
  from assms have "terms \<noteq> 0" by auto
  then show ?thesis by (simp add: word_neq_0_conv)
qed

lemma evaluate_terms_pos:
  "0 < sint terms \<Longrightarrow> evaluate_terms R terms threads = bs R terms 0 terms threads"
  by (simp add: evaluate_terms_def)

lemma budget_independent_full_teams:
  assumes "0 < sint terms" and "unat terms \<le> 2 ^ 53" and "full_teams R"
  shows "\<exists>t lg t0 lg0.
     evaluate_terms R terms n = Some (t, lg) \<and>
     evaluate_terms R terms 0 = Some (t0, lg0) \<and>
     pstack t = pstack t0 \<and> qstack t = qstack t0"
proof -
  from assms(1) have pos: "0 < terms" by (rule sint_pos_word_pos)
  from assms(3) have m: "n < 2 \<or> full_teams R" "0 < 2 \<or> full_teams R" by simp_all
  from bs_series [OF pos assms(2) order_refl m(1)] obtain t lg where
    t: "bs R terms 0 terms n = Some (t, lg)"
    and at: "agrees terms terms t (series (unat (0 :: ulong)) (unat terms - unat (0 :: ulong)))"
    by blast
  from bs_series [OF pos assms(2) order_refl m(2)] obtain t0 lg0 where
    t0: "bs R terms 0 terms 0 = Some (t0, lg0)"
    and at0: "agrees terms terms t0 (series (unat (0 :: ulong)) (unat terms - unat (0 :: ulong)))"
    by blast
  from at at0 have "pstack t = pstack t0 \<and> qstack t = qstack t0" by (simp add: agrees_def)
  with t t0 show ?thesis unfolding evaluate_terms_pos [OF assms(1)] by blast
qed

lemma serial_result_positive:
  assumes "0 < sint terms" and "unat terms \<le> 2 ^ 53"
  shows "\<exists>t lg. evaluate_terms R terms 0 = Some (t, lg) \<and> 0 < pstack t"
proof -
  from assms(1) have pos: "0 < terms" by (rule sint_pos_word_pos)
  have "(0 :: int) < 2 \<or> full_teams R" by simp
  from bs_series [OF pos assms(2) order_refl this] obtain t lg where
    t: "bs R terms 0 terms 0 = Some (t, lg)"
    and a: "agrees terms terms t (series (unat (0 :: ulong)) (unat terms - unat (0 :: ulong)))"
    by blast
  from a have "0 < pstack t" by (simp add: agrees_def pstack_series_pos)
  with t show ?thesis unfolding evaluate_terms_pos [OF assms(1)] by blast
qed

section \<open>Budgets below two\<close>

lemma combine_log_serial:
  "b - a < 1000 \<or> tds < 3 \<Longrightarrow> list_all serial_event (combine_log R a b tds)"
  by (auto simp: combine_log_def)

lemma combine_budget_irrelevant:
  assumes "b - a < 1000 \<or> (tds < 3 \<and> tds' < 3)"
  shows "combine R terms a b tds s1 s2 = combine R terms a b tds' s1 s2"
  using assms by (auto simp: combine_def Let_def)

lemma bs_serial:
  assumes "a < b" and "unat b \<le> 2 ^ 53" and "tds < 2"
  shows "\<exists>t lg lg0. bs R terms a b tds = Some (t, lg) \<and> bs R terms a b 0 = Some (t, lg0) \<and>
           list_all serial_event lg"
proof -
  from assms(1,2) have "\<forall>tds < 2. \<exists>t lg lg0.
      bs R terms a b tds = Some (t, lg) \<and> bs R terms a b 0 = Some (t, lg0) \<and>
      list_all serial_event lg"
  proof (induction rule: bs_range_induct)
    case (one a b)
    then show ?case by (simp add: bs_width_1)
  next
    case (two a b)
    have "combine R terms a b 0 (bs_term (b - 1)) (bs_term b) =
        combine R terms a b tds (bs_term (b - 1)) (bs_term b)" for tds
      by (rule combine_budget_irrelevant) (simp add: two(3))
    then show ?case using two(3) by (simp add: bs_width_2 combine_log_serial)
  next
    case (split a b mid)
    show ?case
    proof (intro allI impI)
      fix tds :: int
      assume small: "tds < 2"
      note sub = budget_below_2 [OF small]
      from split.IH(1) sub(1) obtain s1 l1 l1' where
        l: "bs R terms a mid (tds sdiv 2) = Some (s1, l1)"
        and l0: "bs R terms a mid 0 = Some (s1, l1')"
        and sl: "list_all serial_event l1" by blast
      from split.IH(2) sub(2) obtain s2 l2 l2' where
        r: "bs R terms mid b (tds - tds sdiv 2) = Some (s2, l2)"
        and r0: "bs R terms mid b 0 = Some (s2, l2')"
        and sr: "list_all serial_event l2" by blast
      from small have c: "b - a < 1000 \<or> tds < 2 \<or> 1 < team R 2 a b" by simp
      have c0: "b - a < 1000 \<or> (0 :: int) < 2 \<or> 1 < team R 2 a b" by simp
      from l0 have l0': "bs R terms a mid (0 sdiv 2) = Some (s1, l1')" by simp
      from r0 have r0': "bs R terms mid b (0 - 0 sdiv 2) = Some (s2, l2')" by simp
      have eq: "combine R terms a b tds s1 s2 = combine R terms a b 0 s1 s2"
        using small by (intro combine_budget_irrelevant) simp
      from small have cl: "list_all serial_event (combine_log R a b tds)"
        by (intro combine_log_serial) simp
      show "\<exists>t lg lg0. bs R terms a b tds = Some (t, lg) \<and> bs R terms a b 0 = Some (t, lg0) \<and>
           list_all serial_event lg"
        using bs_split_both [OF split.hyps(4,5,6) l r c]
          bs_split_both [OF split.hyps(4,5,6) l0' r0' c0] small sl sr cl
        by (simp add: eq)
    qed
  qed
  with assms(3) show ?thesis by blast
qed

section \<open>The pruning of the last product\<close>







section \<open>The log of a split\<close>

lemma bs_log_shape:
  assumes "a < b" and "unat b \<le> 2 ^ 53" and "2 < b - a"
  shows "\<exists>mid t s1 l1 s2 l2.
     split_point a b = Some mid \<and>
     bs R terms a mid (tds sdiv 2) = Some (s1, Call a mid (tds sdiv 2) # l1) \<and>
     bs R terms mid b (tds - tds sdiv 2) = Some (s2, Call mid b (tds - tds sdiv 2) # l2) \<and>
     bs R terms a b tds = Some (t,
        Call a b tds #
        (if 1000 \<le> b - a \<and> 2 \<le> tds
         then Fork 2 (team R 2 a b) # Call a mid (tds sdiv 2) # l1 @
              (if 1 < team R 2 a b then Call mid b (tds - tds sdiv 2) # l2 else []) @ [Join]
         else Call a mid (tds sdiv 2) # l1 @ Call mid b (tds - tds sdiv 2) # l2) @
        (if 1000 \<le> b - a \<and> 3 \<le> tds
         then Fork 3 (team R 3 a b) # take (team R 3 a b) [Mul PP, Mul QP, Mul QG] @ [Join]
         else [Mul PP, Mul QP, Mul QG]))"
proof -
  from assms(3) have w: "b - a \<noteq> 1" "b - a \<noteq> 2" by auto
  from split_point_range [OF assms] obtain mid where
    mid: "split_point a b = Some mid" "a < mid" "mid < b" by blast
  from mid(3) assms(2) have m53: "unat mid \<le> 2 ^ 53" by (simp add: word_less_nat_alt)
  from bs_returns [OF mid(2) m53] obtain s1 l1 where
    l: "bs R terms a mid (tds sdiv 2) = Some (s1, Call a mid (tds sdiv 2) # l1)" by blast
  from bs_returns [OF mid(3) assms(2)] obtain s2 l2 where
    r: "bs R terms mid b (tds - tds sdiv 2) = Some (s2, Call mid b (tds - tds sdiv 2) # l2)"
    by blast
  have cl: "combine_log R a b tds =
      (if 1000 \<le> b - a \<and> 3 \<le> tds
       then Fork 3 (team R 3 a b) # take (team R 3 a b) [Mul PP, Mul QP, Mul QG] @ [Join]
       else [Mul PP, Mul QP, Mul QG])"
    by (auto simp: combine_log_def Let_def not_less)
  have "\<exists>t. bs R terms a b tds = Some (t,
        Call a b tds #
        (if 1000 \<le> b - a \<and> 2 \<le> tds
         then Fork 2 (team R 2 a b) # Call a mid (tds sdiv 2) # l1 @
              (if 1 < team R 2 a b then Call mid b (tds - tds sdiv 2) # l2 else []) @ [Join]
         else Call a mid (tds sdiv 2) # l1 @ Call mid b (tds - tds sdiv 2) # l2) @
        combine_log R a b tds)"
  proof (cases "b - a < 1000 \<or> tds < 2 \<or> 1 < team R 2 a b")
    case True
    from bs_split_both [OF w mid(1) l r True] True show ?thesis by (auto simp: not_less)
  next
    case False
    from bs_split_left [OF w mid(1) l False] False show ?thesis by (auto simp: not_less)
  qed
  with mid(1) l r show ?thesis unfolding cl by blast
qed

section \<open>A team of one thread\<close>

text \<open>
  When the region of lines 184 to 193 runs with one thread, that thread has number 0 and
  takes the first branch; the second branch, which holds the call on the right part, is
  an \<^verbatim>\<open>else\<close> branch of the first and is not executed by anybody.
\<close>

lemma left_only_zero:
  assumes "a < b" and "unat b \<le> 2 ^ 53" and "1000 \<le> b - a" and "R 2 a b \<le> 1"
  shows "\<exists>t lg. bs R terms a b 2 = Some (t, lg) \<and> pstack t = 0 \<and> qstack t = 0"
proof -
  from assms(3) have wide: "2 < b - a" and w: "b - a \<noteq> 1" "b - a \<noteq> 2"
    by (auto simp: word_le_nat_alt word_less_nat_alt word_unat_eq_iff)
  from split_point_range [OF assms(1,2) wide] obtain mid where
    mid: "split_point a b = Some mid" "a < mid" "mid < b" by blast
  from mid(3) assms(2) have "unat mid \<le> 2 ^ 53" by (simp add: word_less_nat_alt)
  from bs_returns [OF mid(2) this] obtain s1 rest where
    l: "bs R terms a mid (2 sdiv 2) = Some (s1, Call a mid (2 sdiv 2) # rest)" by blast
  from assms(4) have one: "team R 2 a b = 1" by (simp add: team_def max_def min_def)
  from assms(3) one have left: "\<not> (b - a < 1000 \<or> (2 :: int) < 2 \<or> 1 < team R 2 a b)"
    by (simp add: not_less)
  have "pstack (combine R terms a b 2 s1 mpz_init) = 0"
    and "qstack (combine R terms a b 2 s1 mpz_init) = 0"
    by (simp_all add: combine_def mpz_init_def)
  with bs_split_left [OF w mid(1) l left] show ?thesis by blast
qed

lemma single_team_zero:
  "\<exists>t lg. evaluate_terms (\<lambda>n a b. 1) 1000 2 = Some (t, lg) \<and> pstack t = 0 \<and> qstack t = 0"
proof -
  have s: "(0 :: int) < sint (1000 :: ulong)" by simp
  have "1000 \<le> (1000 :: ulong) - 0" by simp
  then have "\<exists>t lg. bs (\<lambda>n a b. 1) 1000 0 1000 2 = Some (t, lg) \<and> pstack t = 0 \<and> qstack t = 0"
    by (intro left_only_zero) simp_all
  then show ?thesis unfolding evaluate_terms_pos [OF s] .
qed

section \<open>Evaluations at given arguments\<close>

lemma rne53_0: "rne53 0 = 0"
  by (simp add: rne53_def nbits.simps Let_def)

lemma rne53_2_54: "rne53 18014398509481984 = 18014398509481984"
  by (simp add: rne53_def nbits.simps Let_def)

lemma rne53_2_107:
  "rne53 162259276829213363391578010288128 = 162259276829213363391578010288128"
  by (simp add: rne53_def nbits.simps Let_def)

lemma rne53_3: "rne53 3 = 3"
  by (simp add: rne53_def nbits.simps Let_def)

lemma rne53_product_3: "rne53 14116082672030082 = 14116082672030082"
  by (simp add: rne53_def nbits.simps Let_def)

lemma rne53_sum_3:
  "rne53 162259276829213377507660682318210 = 162259276829213363391578010288128"
  by (simp add: rne53_def nbits.simps Let_def)

lemma rne53_3000: "rne53 3000 = 3000"
  by (simp add: rne53_def nbits.simps Let_def)

lemma rne53_product_3000: "rne53 14116082672030082000 = 14116082672030081024"
  by (simp add: rne53_def nbits.simps Let_def)

lemma rne53_sum_3000: "rne53 14116082672030081024 = 14116082672030081024"
  by (simp add: rne53_def nbits.simps Let_def)

lemma split_point_2_54_empty:
  "split_point 18014398509481984 18014398509481984 = Some 18014398509481984"
  by (simp add: split_point_def Let_def rne53_0 rne53_2_54 rne53_2_107)

lemma split_point_2_54_3:
  "split_point 18014398509481984 18014398509481987 = Some 18014398509481984"
  by (simp add: split_point_def Let_def rne53_3 rne53_product_3 rne53_2_54 rne53_sum_3)

lemma split_point_0_3: "split_point 0 3 = Some 1"
  by (simp add: split_point_def Let_def rne53_3 rne53_product_3 rne53_0)

lemma split_point_0_3000: "split_point 0 3000 = Some 1567"
  by (simp add: split_point_def Let_def rne53_0 rne53_3000 rne53_product_3000 rne53_sum_3000)

lemma bs_empty_range_diverges:
  "bs R terms 18014398509481984 18014398509481984 tds = None"
proof -
  have "\<not> (a = 18014398509481984 \<and> b = 18014398509481984)"
    if "bs R terms a b tds = Some y" for a b tds y
    using that
  proof (induction rule: bs.raw_induct [rotated 1, consumes 1])
    case (1 bs' R terms a b tds y)
    show ?case
    proof
      assume ab: "a = 18014398509481984 \<and> b = 18014398509481984"
      with 1(2) split_point_2_54_empty obtain r where
        "bs' R terms 18014398509481984 18014398509481984 (tds sdiv 2) = Some r"
        by (auto simp: Let_def split: if_splits Option.bind_splits)
      with 1(1) show False by blast
    qed
  qed
  then have "bs R terms 18014398509481984 18014398509481984 tds \<noteq> Some y" for y
    by blast
  then show ?thesis by (simp only: not_Some_eq [symmetric]) blast
qed

lemma bs_beyond_binary64_diverges:
  "bs R terms 18014398509481984 18014398509481987 tds = None"
  by (subst bs.simps) (simp add: split_point_2_54_3 bs_empty_range_diverges)

lemma bs_0_3_log:
  "map_option snd (bs (\<lambda>n a b. n) 3 0 3 (- 3)) =
     Some [Call 0 3 (- 3), Call 0 1 (- 1), Call 1 3 (- 2),
           Mul PP, Mul QP, Mul QG, Mul PP, Mul QP, Mul QG]"
proof -
  have s: "(- 3 :: int) sdiv 2 = - 1" by (simp add: signed_divide_int_def)
  have l: "bs (\<lambda>n a b. n) 3 0 1 (- 3 sdiv 2) = Some (bs_term 1, [Call 0 1 (- 1)])"
    unfolding s by (rule bs_width_1) simp
  have r: "bs (\<lambda>n a b. n) 3 1 3 (- 3 - - 3 sdiv 2) =
      Some (combine (\<lambda>n a b. n) 3 1 3 (- 2) (bs_term (3 - 1)) (bs_term 3),
            Call 1 3 (- 2) # combine_log (\<lambda>n a b. n) 1 3 (- 2))"
    unfolding s using bs_width_2 [of 3 1 "\<lambda>n a b. n" 3 "- 2"] by simp
  show ?thesis
    using bs_split_both [OF _ _ split_point_0_3 l r] by (simp add: combine_log_def)
qed

lemma bs_0_1000_region:
  "map_option (\<lambda>(t, lg). lg ! 1) (bs (\<lambda>n a b. n) 1000 0 1000 2) = Some (Fork 2 2)"
proof -
  have "(0 :: ulong) < 1000" and "unat (1000 :: ulong) \<le> 2 ^ 53" and "(2 :: ulong) < 1000 - 0"
    by simp_all
  from bs_log_shape [OF this, of "\<lambda>n a b. n" 1000 2] obtain t rest where
    e: "bs (\<lambda>n a b. n) 1000 0 1000 2 = Some (t, Call 0 1000 2 # Fork 2 2 # rest)"
    by (auto simp: team_granted)
  show ?thesis unfolding e by simp
qed

lemma nested_teams_of_one:
  "\<exists>t lg. evaluate_terms (\<lambda>n a b. if a = 0 \<and> b = 3000 then n else 1) 3000 4 = Some (t, lg) \<and>
     pstack t = 0 \<and> qstack t = 0"
proof -
  define R :: omp where "R = (\<lambda>n a b. if a = 0 \<and> b = 3000 then n else 1)"
  have s: "(0 :: int) < sint (3000 :: ulong)" by simp
  have "1000 \<le> (1567 :: ulong) - 0" by simp
  then have "\<exists>t lg. bs R 3000 0 1567 2 = Some (t, lg) \<and> pstack t = 0 \<and> qstack t = 0"
    by (intro left_only_zero) (simp_all add: R_def)
  then obtain s1 l1 where l: "bs R 3000 0 1567 (4 sdiv 2) = Some (s1, l1)"
    and z1: "pstack s1 = 0" "qstack s1 = 0" by (auto simp: signed_divide_int_def)
  have "1000 \<le> (3000 :: ulong) - 1567" by simp
  then have "\<exists>t lg. bs R 3000 1567 3000 2 = Some (t, lg) \<and> pstack t = 0 \<and> qstack t = 0"
    by (intro left_only_zero) (simp_all add: R_def)
  then obtain s2 l2 where r: "bs R 3000 1567 3000 (4 - 4 sdiv 2) = Some (s2, l2)"
    and z2: "pstack s2 = 0" "qstack s2 = 0" by (auto simp: signed_divide_int_def)
  have both: "(3000 :: ulong) - 0 < 1000 \<or> (4 :: int) < 2 \<or> 1 < team R 2 0 3000"
    by (simp add: team_def R_def)
  have "pstack (combine R 3000 0 3000 4 s1 s2) = 0"
    and "qstack (combine R 3000 0 3000 4 s1 s2) = 0"
    using z1 z2 by (simp_all add: combine_def Let_def)
  with bs_split_both [OF _ _ split_point_0_3000 l r both]
  have "\<exists>t lg. bs R 3000 0 3000 4 = Some (t, lg) \<and> pstack t = 0 \<and> qstack t = 0"
    by simp
  then show ?thesis unfolding evaluate_terms_pos [OF s] R_def .
qed

section \<open>The conversion to a floating-point value\<close>

lemma finalize_value:
  assumes "default_prec d = Some prec" and "threads < 2 \<or> 2 \<le> granted"
  shows "finalize M granted d p q threads =
     Some (mpf_mul M prec
             (mpf_div M prec (mpf_set_z M prec (p * 53360)) (mpf_set_z M prec (q + p * 13591409)))
             (mpf_sqrt_ui M prec 640320))"
  using assms by (auto simp: finalize_def Let_def A_def C_def D_def signed_divide_int_def)

lemma finalize_undefined:
  assumes "2 \<le> threads" and "granted \<le> 1"
  shows "finalize M granted d p q threads = None"
  using assms by (auto simp: finalize_def Let_def split: option.splits)

lemma rne53_int_of_nat: "rne53_int (int n) = int (rne53 n)"
  by (cases "n = 0") (simp_all add: rne53_int_def rne53_0)

lemma default_prec_defined:
  assumes "0 < sint d" and "sint d \<le> 2 ^ 52"
  shows "\<exists>prec. default_prec d = Some prec"
proof -
  define n where "n = nat (sint d)"
  from assms have d: "sint d = int n" and n: "n \<le> 2 ^ 52" by (simp_all add: n_def)
  from n have "n \<le> 2 ^ 53" by simp
  then have x: "rne53 n = n" by (rule rne53_exact)
  define p where "p = rne53 (n * 7480317065143153)"
  have small: "n * 7480317065143153 < 2 ^ 106" using n by simp
  have p_hi: "p \<le> n * 2 ^ 53" unfolding p_def using small by (rule rne53_le) simp
  define s where "s = rne53 (p + 16 * 2 ^ 51)"
  have small': "p + 16 * 2 ^ 51 < 2 ^ 106" using p_hi n by simp
  have "s \<le> (n + 4) * 2 ^ 53" unfolding s_def using small'
    by (rule rne53_le) (use p_hi in simp)
  then have "s div 2 ^ 51 \<le> ((n + 4) * 2 ^ 53) div 2 ^ 51" by (rule div_le_mono)
  with n have m: "s div 2 ^ 51 < 2 ^ 63" by simp
  have "rne53_int (rne53_int (rne53_int (sint d) * 7480317065143153) + 16 * 2 ^ 51) = int s"
  proof -
    have "rne53_int (sint d) * 7480317065143153 = int (n * 7480317065143153)"
      by (simp add: d rne53_int_of_nat x)
    then have "rne53_int (rne53_int (sint d) * 7480317065143153) = int p"
      by (simp only: rne53_int_of_nat p_def)
    then have "rne53_int (rne53_int (sint d) * 7480317065143153) + 16 * 2 ^ 51
        = int (p + 16 * 2 ^ 51)" by simp
    then show ?thesis by (simp only: rne53_int_of_nat s_def)
  qed
  moreover have "int s sdiv 2 ^ 51 = int (s div 2 ^ 51)"
    by (simp add: signed_divide_int_def sgn_if zdiv_int)
  moreover have "int (s div 2 ^ 51) < 2 ^ 63"
  proof -
    from m have "int (s div 2 ^ 51) < int (2 ^ 63)" by (simp only: of_nat_less_iff)
    then show ?thesis by simp
  qed
  moreover have "- (2 ^ 63) \<le> int (s div 2 ^ 51)" by simp
  ultimately show ?thesis by (simp add: default_prec_def Let_def)
qed

lemma rne53_15: "rne53 15 = 15"
  by (simp add: rne53_def nbits.simps Let_def)

lemma rne53_product_15: "rne53 112204755977147295 = 112204755977147296"
  by (simp add: rne53_def nbits.simps Let_def)

lemma rne53_sum_15: "rne53 148233552996111264 = 148233552996111264"
  by (simp add: rne53_def nbits.simps Let_def)

lemma default_prec_15: "default_prec 15 = Some 65"
  by (simp add: default_prec_def rne53_int_def Let_def rne53_15 rne53_product_15 rne53_sum_15
      signed_divide_int_def)

section \<open>The properties of the specification\<close>

text \<open>
  C1 (amended). Let \<open>a < m < b \<le> terms\<close> with \<open>b \<le> 2 ^ 53\<close>, and let the runtime give every
  parallel region its full team, or let the three budgets be below 2. Then the calls on the
  ranges from \<open>a\<close> to \<open>m\<close>, from \<open>m\<close> to \<open>b\<close> and from \<open>a\<close> to \<open>b\<close> return, and the triple of the
  last one has \<open>P = P_l * P_r\<close> and \<open>Q = Q_l * P_r + Q_r * G_l\<close>; it has \<open>G = G_l * G_r\<close> when
  \<open>b < terms\<close>. This holds for every \<open>m\<close> between \<open>a\<close> and \<open>b\<close>.
\<close>

theorem combine_adjacent_ranges:
  assumes "a < m" and "m < b" and "b \<le> terms" and "unat b \<le> 2 ^ 53"
    and "full_teams R \<or> (t1 < 2 \<and> t2 < 2 \<and> t3 < 2)"
  shows "\<exists>l ll r lr d ld.
     bs R terms a m t1 = Some (l, ll) \<and>
     bs R terms m b t2 = Some (r, lr) \<and>
     bs R terms a b t3 = Some (d, ld) \<and>
     pstack d = pstack l * pstack r \<and>
     qstack d = qstack l * pstack r + qstack r * gstack l \<and>
     (b < terms \<longrightarrow> gstack d = gstack l * gstack r)"
proof -
  from assms(1,2) have lt: "unat a < unat m" "unat m < unat b"
    by (simp_all add: word_less_nat_alt)
  from assms(2,3) have mt: "m < terms" "m \<le> terms" by simp_all
  from lt assms(4) have m53: "unat m \<le> 2 ^ 53" by simp
  from assms(1,2) have ab: "a < b" by simp
  from assms(5) have modes: "t1 < 2 \<or> full_teams R" "t2 < 2 \<or> full_teams R"
    "t3 < 2 \<or> full_teams R" by blast+
  from bs_series [OF assms(1) m53 mt(2) modes(1)] obtain l ll where
    l: "bs R terms a m t1 = Some (l, ll)"
    and al: "agrees terms m l (series (unat a) (unat m - unat a))" by blast
  from bs_series [OF assms(2,4,3) modes(2)] obtain r lr where
    r: "bs R terms m b t2 = Some (r, lr)"
    and ar: "agrees terms b r (series (unat m) (unat b - unat m))" by blast
  from bs_series [OF ab assms(4,3) modes(3)] obtain d ld where
    d: "bs R terms a b t3 = Some (d, ld)"
    and ad: "agrees terms b d (series (unat a) (unat b - unat a))" by blast
  have "series (unat a) ((unat m - unat a) + (unat b - unat m))
      = merge (series (unat a) (unat m - unat a))
          (series (unat a + (unat m - unat a)) (unat b - unat m))"
    by (rule series_add)
  with lt have ser: "series (unat a) (unat b - unat a)
      = merge (series (unat a) (unat m - unat a)) (series (unat m) (unat b - unat m))"
    by simp
  from al ar ad mt(1) have
    "pstack d = pstack l * pstack r \<and>
     qstack d = qstack l * pstack r + qstack r * gstack l \<and>
     (b < terms \<longrightarrow> gstack d = gstack l * gstack r)"
    unfolding ser by (simp add: agrees_def merge_def)
  with l r d show ?thesis by blast
qed

theorem combine_adjacent_ranges_witness:
  "(0 :: ulong) < 1 \<and> (1 :: ulong) < 3 \<and> (3 :: ulong) \<le> 5 \<and> unat (3 :: ulong) \<le> 2 ^ 53 \<and>
   full_teams (\<lambda>n a b. n) \<and>
   (\<exists>l ll r lr d ld.
     bs (\<lambda>n a b. n) 5 0 1 4 = Some (l, ll) \<and>
     bs (\<lambda>n a b. n) 5 1 3 4 = Some (r, lr) \<and>
     bs (\<lambda>n a b. n) 5 0 3 4 = Some (d, ld) \<and>
     pstack d = pstack l * pstack r \<and>
     qstack d = qstack l * pstack r + qstack r * gstack l \<and>
     gstack d = gstack l * gstack r)"
  using combine_adjacent_ranges [of 0 1 3 5 "\<lambda>n a b. n" 4 4 4]
  by (simp add: full_teams_def)

theorem pruned_g_counterexample:
  "bs (\<lambda>n a b. n) 2 0 1 0 =
     Some (\<lparr>pstack = 10939058860032000, qstack = - 2793657715, gstack = 5\<rparr>, [Call 0 1 0]) \<and>
   bs (\<lambda>n a b. n) 2 1 2 0 =
     Some (\<lparr>pstack = 87512470880256000, qstack = 254994357387, gstack = 231\<rparr>, [Call 1 2 0]) \<and>
   bs (\<lambda>n a b. n) 2 0 2 0 =
     Some (\<lparr>pstack = 10939058860032000 * 87512470880256000,
            qstack = - 2793657715 * 87512470880256000 + 254994357387 * 5,
            gstack = 5\<rparr>,
           [Call 0 2 0, Mul PP, Mul QP, Mul QG]) \<and>
   (5 :: int) \<noteq> 5 * 231"
  by (simp add: bs_width_1 bs_width_2 bs_term_def combine_def combine_log_def
      A_def B_def C_def)




text \<open>
  C3 (evaluation at failing inputs). With 1000 terms, budget 2 and a runtime that gives
  the parallel region of lines 184 to 193 one thread, the right part of the range is never
  evaluated and the process ends with \<open>P = 0\<close> and \<open>Q = 0\<close>; with budget 0 and the same runtime
  it ends with a positive \<open>P\<close>. With 3000 terms, budget 4 and a runtime that gives the
  outermost regions their full teams and every nested region one thread, the process ends
  with \<open>P = 0\<close> and \<open>Q = 0\<close> as well, and with a positive \<open>P\<close> for budget 0.
\<close>

theorem single_thread_team_changes_result:
  "(\<exists>t lg. evaluate_terms (\<lambda>n a b. 1) 1000 2 = Some (t, lg) \<and> pstack t = 0 \<and> qstack t = 0) \<and>
   (\<exists>t lg. evaluate_terms (\<lambda>n a b. 1) 1000 0 = Some (t, lg) \<and> 0 < pstack t) \<and>
   (\<exists>t lg. evaluate_terms (\<lambda>n a b. if a = 0 \<and> b = 3000 then n else 1) 3000 4 = Some (t, lg) \<and>
      pstack t = 0 \<and> qstack t = 0) \<and>
   (\<exists>t lg. evaluate_terms (\<lambda>n a b. if a = 0 \<and> b = 3000 then n else 1) 3000 0 = Some (t, lg) \<and>
      0 < pstack t)"
  by (intro conjI single_team_zero nested_teams_of_one serial_result_positive) simp_all

text \<open>
  C4 (evaluation at a failing input). For 15 digits the precision is 65 bits. With
  \<^verbatim>\<open>threads\<close> equal to 2 and a runtime that gives the parallel region of lines 331 to 343 one
  thread, the square root is never taken and \<^verbatim>\<open>ci\<close> is never initialised, so the product of
  line 355 has no defined result. With a team of two threads, and with \<^verbatim>\<open>threads\<close> equal to 1,
  the result is the product of the quotient of \<open>P * (C / D)\<close> by \<open>Q + A * P\<close>, both converted
  at 65 bits, and the square root of \<open>C\<close>, all at 65 bits.
\<close>

theorem finalize_one_thread_team:
  "finalize M 1 15 p q 2 = None \<and>
   finalize M 2 15 p q 2 =
     Some (mpf_mul M 65
             (mpf_div M 65 (mpf_set_z M 65 (p * 53360)) (mpf_set_z M 65 (q + p * 13591409)))
             (mpf_sqrt_ui M 65 640320)) \<and>
   finalize M 1 15 p q 1 =
     Some (mpf_mul M 65
             (mpf_div M 65 (mpf_set_z M 65 (p * 53360)) (mpf_set_z M 65 (q + p * 13591409)))
             (mpf_sqrt_ui M 65 640320))"
  by (simp add: finalize_undefined finalize_value [OF default_prec_15])



text \<open>
  C6 (amended). For every range from \<open>a\<close> to \<open>b\<close> with \<open>a < b \<le> 2 ^ 53\<close> and width above 2, and
  every budget \<open>n\<close>: the call on the left part is made with the budget \<open>n / 2\<close> rounded
  towards zero, which is \<open>floor (n / 2)\<close> when \<open>n\<close> is not negative, and the call on the right
  part with \<open>n\<close> minus that. The two calls stand in a parallel region that asks for two
  threads exactly when the width is at least 1000 and \<open>n\<close> is at least 2, and the three
  products stand in a parallel region that asks for three threads exactly when the width
  is at least 1000 and \<open>n\<close> is at least 3. Otherwise the log has no region there: the left call
  comes first, then the right call, then the products in the order of lines 198 to 200.
\<close>

theorem split_budgets_and_regions:
  assumes "a < b" and "unat b \<le> 2 ^ 53" and "2 < b - a"
  shows "(\<exists>mid t s1 l1 s2 l2.
     split_point a b = Some mid \<and>
     bs R terms a mid (tds sdiv 2) = Some (s1, Call a mid (tds sdiv 2) # l1) \<and>
     bs R terms mid b (tds - tds sdiv 2) = Some (s2, Call mid b (tds - tds sdiv 2) # l2) \<and>
     bs R terms a b tds = Some (t,
        Call a b tds #
        (if 1000 \<le> b - a \<and> 2 \<le> tds
         then Fork 2 (team R 2 a b) # Call a mid (tds sdiv 2) # l1 @
              (if 1 < team R 2 a b then Call mid b (tds - tds sdiv 2) # l2 else []) @ [Join]
         else Call a mid (tds sdiv 2) # l1 @ Call mid b (tds - tds sdiv 2) # l2) @
        (if 1000 \<le> b - a \<and> 3 \<le> tds
         then Fork 3 (team R 3 a b) # take (team R 3 a b) [Mul PP, Mul QP, Mul QG] @ [Join]
         else [Mul PP, Mul QP, Mul QG]))) \<and>
    (0 \<le> tds \<longrightarrow> tds sdiv 2 = tds div 2)"
  using bs_log_shape [OF assms] by (simp add: sdiv_2_nonneg)

theorem split_budgets_and_regions_witness:
  "(0 :: ulong) < 3000 \<and> unat (3000 :: ulong) \<le> 2 ^ 53 \<and> (2 :: ulong) < 3000 - 0 \<and>
   (\<exists>mid t s1 l1 s2 l2.
     split_point 0 3000 = Some mid \<and>
     bs (\<lambda>n a b. n) 3000 0 mid 2 = Some (s1, Call 0 mid 2 # l1) \<and>
     bs (\<lambda>n a b. n) 3000 mid 3000 3 = Some (s2, Call mid 3000 3 # l2) \<and>
     bs (\<lambda>n a b. n) 3000 0 3000 5 = Some (t,
        Call 0 3000 5 # Fork 2 2 # Call 0 mid 2 # l1 @ (Call mid 3000 3 # l2) @ [Join] @
        Fork 3 3 # [Mul PP, Mul QP, Mul QG] @ [Join]))"
  using split_budgets_and_regions [of 0 3000 "\<lambda>n a b. n" 3000 5]
  by (simp add: team_granted signed_divide_int_def)

theorem split_budgets_and_regions_counterexample:
  "map_option snd (bs (\<lambda>n a b. n) 3 0 3 (- 3)) =
     Some [Call 0 3 (- 3), Call 0 1 (- 1), Call 1 3 (- 2),
           Mul PP, Mul QP, Mul QG, Mul PP, Mul QP, Mul QG] \<and>
   (- 3 :: int) div 2 = - 2 \<and>
   map_option (\<lambda>(t, lg). lg ! 1) (bs (\<lambda>n a b. n) 1000 0 1000 2) = Some (Fork 2 2) \<and>
   (1000 :: ulong) - 0 = 1000"
  by (intro conjI bs_0_3_log bs_0_1000_region) simp_all

text \<open>
  C7. For every \<open>b\<close>, the call on the range from \<open>b - 2\<close> to \<open>b\<close>, which takes the unrolled
  path of lines 133 to 166, returns the triple that the combination step of lines 197 to
  221 produces from the triples returned by the calls on the ranges from \<open>b - 2\<close> to \<open>b - 1\<close>
  and from \<open>b - 1\<close> to \<open>b\<close>: \<open>P = P1 * P2\<close>, \<open>Q = Q1 * P2 + Q2 * G1\<close>, and \<open>G = G1 * G2\<close> when
  \<open>b\<close> is below \<^verbatim>\<open>terms\<close>, \<open>G = G1\<close> otherwise.
\<close>

theorem unrolled_width_two:
  "\<exists>s1 l1 s2 l2 lg.
     bs R terms (b - 2) (b - 1) tds1 = Some (s1, l1) \<and>
     bs R terms (b - 1) b tds2 = Some (s2, l2) \<and>
     bs R terms (b - 2) b tds = Some (combine R terms (b - 2) b tds s1 s2, lg) \<and>
     combine R terms (b - 2) b tds s1 s2 =
       \<lparr>pstack = pstack s1 * pstack s2,
        qstack = qstack s1 * pstack s2 + qstack s2 * gstack s1,
        gstack = (if b < terms then gstack s1 * gstack s2 else gstack s1)\<rparr>"
proof -
  have l: "bs R terms (b - 2) (b - 1) tds1 = Some (bs_term (b - 1), [Call (b - 2) (b - 1) tds1])"
    by (rule bs_width_1) simp
  have r: "bs R terms (b - 1) b tds2 = Some (bs_term b, [Call (b - 1) b tds2])"
    by (rule bs_width_1) simp
  have w: "b - (b - 2) = 2" by simp
  have c: "combine R terms (b - 2) b tds (bs_term (b - 1)) (bs_term b) =
       \<lparr>pstack = pstack (bs_term (b - 1)) * pstack (bs_term b),
        qstack = qstack (bs_term (b - 1)) * pstack (bs_term b)
               + qstack (bs_term b) * gstack (bs_term (b - 1)),
        gstack = (if b < terms then gstack (bs_term (b - 1)) * gstack (bs_term b)
                  else gstack (bs_term (b - 1)))\<rparr>"
    by (rule combine_all_products) (simp add: w)
  show ?thesis unfolding l r bs_width_2 [OF w] using c by blast
qed

text \<open>
  C8 (amended). For every range from \<open>a\<close> to \<open>b\<close> with \<open>a < b \<le> 2 ^ 53\<close> and every budget
  below 2, negative ones included, the call returns a triple (there is no error value), its
  log has no parallel region, neither at a split nor at a combination, and the triple is
  the one the call with budget 0 returns.
\<close>

theorem budget_below_two_is_serial:
  assumes "a < b" and "unat b \<le> 2 ^ 53" and "tds < 2"
  shows "\<exists>t lg lg0. bs R terms a b tds = Some (t, lg) \<and> bs R terms a b 0 = Some (t, lg0) \<and>
           list_all serial_event lg"
  using assms by (rule bs_serial)

theorem budget_below_two_is_serial_witness:
  "(0 :: ulong) < 2000 \<and> unat (2000 :: ulong) \<le> 2 ^ 53 \<and> (- 7 :: int) < 2 \<and>
   (\<exists>t lg lg0. bs (\<lambda>n a b. n) 2000 0 2000 (- 7) = Some (t, lg) \<and>
      bs (\<lambda>n a b. n) 2000 0 2000 0 = Some (t, lg0) \<and> list_all serial_event lg)"
  using budget_below_two_is_serial [of 0 2000 "- 7" "\<lambda>n a b. n" 2000] by simp

theorem budget_below_two_diverges_counterexample:
  "(18014398509481984 :: ulong) < 18014398509481987 \<and> (- 1 :: int) < 2 \<and>
   bs (\<lambda>n a b. n) 18014398509481987 18014398509481984 18014398509481987 (- 1) = None"
  by (simp add: bs_beyond_binary64_diverges)

text \<open>
  C9. When \<^verbatim>\<open>terms\<close> is \<open>0\<close> the binary splitting process leaves \<open>P = 1\<close> and \<open>Q = 0\<close> and its log
  is empty: \<^verbatim>\<open>bs\<close> is not called on any range.
\<close>

theorem zero_terms_short_circuit:
  "evaluate_terms R 0 threads = Some (\<lparr>pstack = 1, qstack = 0, gstack = 1\<rparr>, [])"
  by (simp add: evaluate_terms_def)

text \<open>
  C10 (amended). For every range from \<open>a\<close> to \<open>b\<close> with \<open>a < b \<le> 2 ^ 53\<close>: when the width
  exceeds 2 the split point computed at line 178 lies strictly between \<open>a\<close> and \<open>b\<close>, so both
  parts are non-empty and narrower; the call returns, and every call of \<^verbatim>\<open>bs\<close> made on the
  way is on a range with \<open>a < b\<close>.
\<close>

theorem split_inside_and_termination:
  assumes "a < b" and "unat b \<le> 2 ^ 53"
  shows "(2 < b - a \<longrightarrow> (\<exists>mid. split_point a b = Some mid \<and> a < mid \<and> mid < b)) \<and>
         (\<exists>t lg. bs R terms a b tds = Some (t, lg) \<and> list_all wf_call lg)"
  using assms by (simp add: split_point_range bs_calls_wf)

theorem split_inside_and_termination_witness:
  "(0 :: ulong) < 5 \<and> unat (5 :: ulong) \<le> 2 ^ 53 \<and> (2 :: ulong) < 5 - 0 \<and>
   (\<exists>mid. split_point 0 5 = Some mid \<and> 0 < mid \<and> mid < 5) \<and>
   (\<exists>t lg. bs (\<lambda>n a b. n) 5 0 5 4 = Some (t, lg) \<and> list_all wf_call lg)"
  using split_inside_and_termination [of 0 5 "\<lambda>n a b. n" 5 4] by simp

theorem split_at_left_end_counterexample:
  "(18014398509481984 :: ulong) < 18014398509481987 \<and>
   (2 :: ulong) < 18014398509481987 - 18014398509481984 \<and>
   split_point 18014398509481984 18014398509481987 = Some 18014398509481984 \<and>
   bs (\<lambda>n a b. n) 18014398509481987 18014398509481984 18014398509481987 0 = None"
  by (simp add: split_point_2_54_3 bs_beyond_binary64_diverges)

end
